theory Spec2Isabelle
  imports Complex_Main "HOL-Library.Word" "HOL-Library.AList"
begin

section \<open>MIDI decoder: \<open>getEventForData\<close>\<close>

text \<open>
  The decoder reads a \<open>Uint8Array\<close>. An element read \<open>data[i]\<close> yields a number in
  \<open>0..255\<close>, or \<open>undefined\<close> past the end of the array; \<open>byte_at\<close> returns \<open>None\<close>
  for \<open>undefined\<close>.
\<close>

definition byte_at :: "8 word list \<Rightarrow> nat \<Rightarrow> nat option" where
  "byte_at data i = (if i < length data then Some (unat (data ! i)) else None)"

text \<open>The enums \<open>MIDICommand\<close> and \<open>MIDIControlChange\<close> and the channel count.\<close>

definition NOTE_OFF :: nat where "NOTE_OFF = 0x80"
definition NOTE_ON :: nat where "NOTE_ON = 0x90"
definition CONTROL_CHANGE :: nat where "CONTROL_CHANGE = 0xb0"
definition PITCH_WHEEL :: nat where "PITCH_WHEEL = 0xe0"
definition MODWHEEL :: nat where "MODWHEEL = 0x01"
definition SUSTAIN :: nat where "SUSTAIN = 0x40"
definition NUM_MIDI_CHANNELS :: nat where "NUM_MIDI_CHANNELS = 16"

text \<open>
  The events built by \<open>customEvent(type, detail)\<close>, one constructor per event type with
  the fields of its \<open>detail\<close>. A \<open>note\<close> is the element read at index 1 (\<open>None\<close> is
  \<open>undefined\<close>); a \<open>velocity\<close> or \<open>value\<close> is a JavaScript number, with \<open>None\<close>
  standing for \<open>NaN\<close> (the quotient of \<open>undefined\<close>) and the quotient itself taken
  over the reals.
\<close>

datatype midi_event =
    NoteOnEvent nat "nat option" "real option"
  | NoteOffEvent nat "nat option"
  | PitchWheelEvent "real option"
  | ModWheelEvent "real option"
  | SustainOnEvent nat
  | SustainOffEvent nat

text \<open>\<open>x / d\<close> for an element read \<open>x\<close>: \<open>undefined / d\<close> is \<open>NaN\<close>.\<close>

definition js_div :: "nat option \<Rightarrow> real \<Rightarrow> real option" where
  "js_div x d = (case x of None \<Rightarrow> None | Some v \<Rightarrow> Some (real v / d))"

text \<open>Truthiness of a number: \<open>0\<close> and \<open>NaN\<close> are falsy.\<close>

definition truthy_num :: "real option \<Rightarrow> bool" where
  "truthy_num x = (case x of None \<Rightarrow> False | Some v \<Rightarrow> v \<noteq> 0)"

text \<open>Truthiness of an element read: \<open>0\<close> and \<open>undefined\<close> are falsy.\<close>

definition truthy_byte :: "nat option \<Rightarrow> bool" where
  "truthy_byte x = (case x of None \<Rightarrow> False | Some v \<Rightarrow> v \<noteq> 0)"

text \<open>
  \<open>(data[1] + (data[2] << 8)) / 0xffff\<close>: the shift converts \<open>undefined\<close> to \<open>0\<close>, the
  sum with \<open>undefined\<close> is \<open>NaN\<close>. A byte shifted left by 8 stays far below \<open>2^31\<close>, so
  the 32-bit shift does not wrap.
\<close>

definition pitch_value :: "nat option \<Rightarrow> nat option \<Rightarrow> real option" where
  "pitch_value lsb msb =
     (case lsb of
        None \<Rightarrow> None
      | Some l \<Rightarrow>
          Some (real (l + (case msb of None \<Rightarrow> 0 | Some m \<Rightarrow> push_bit 8 m)) / 0xffff))"

text \<open>
  \<open>getEventForData\<close>; \<open>None\<close> is the \<open>void\<close> return. When \<open>data[0]\<close> is \<open>undefined\<close>
  both range comparisons are false, \<open>channel\<close> and \<open>command\<close> are \<open>NaN\<close>, no command
  matches and the function falls off its end.
\<close>

definition getEventForData :: "8 word list \<Rightarrow> midi_event option" where
  "getEventForData data =
     (case byte_at data 0 of
        None \<Rightarrow> None
      | Some status \<Rightarrow>
          if status < NOTE_OFF \<or> status \<ge> PITCH_WHEEL + NUM_MIDI_CHANNELS then None
          else
            let channel = status mod NUM_MIDI_CHANNELS;
                command = status - channel
            in
              if command = NOTE_ON \<or> command = NOTE_OFF then
                (let note = byte_at data 1;
                     val = byte_at data 2;
                     velocity = js_div val 0xff
                 in if command = NOTE_ON \<and> truthy_num velocity
                    then Some (NoteOnEvent channel note velocity)
                    else Some (NoteOffEvent channel note))
              else if command = PITCH_WHEEL then
                Some (PitchWheelEvent (pitch_value (byte_at data 1) (byte_at data 2)))
              else if command = CONTROL_CHANGE then
                (let control = byte_at data 1;
                     val = byte_at data 2
                 in if control = Some MODWHEEL then Some (ModWheelEvent (js_div val 0xff))
                    else if control = Some SUSTAIN then
                      (if truthy_byte val then Some (SustainOnEvent channel)
                       else Some (SustainOffEvent channel))
                    else None)
              else None)"

section \<open>Voice management: \<open>BaseOscillator\<close>\<close>

subsection \<open>The audio context\<close>

text \<open>
  The Web Audio nodes the class creates live in the shared \<open>audioCtx\<close>. The context is
  modelled as two stores, one of \<open>OscillatorNode\<close>s and one of \<open>GainNode\<close>s; a node's
  handle is its index in its store. An oscillator node holds its three parameters,
  whether it is sounding (\<open>start()\<close> called and \<open>stop()\<close> not yet), the gain node its
  output is connected to, and its \<open>onended\<close> callback. The callback is a closure over the
  oscillator itself and a gain node, so it is stored as the handle of that gain node.
\<close>

record oscillator_node =
  osc_detune :: real
  osc_frequency :: real
  osc_type :: string
  playing :: bool
  osc_output :: "nat option"
  onended :: "nat option"

record gain_node =
  gain_value :: real
  to_destination :: bool

text \<open>
  An entry of \<open>activeNotes\<close>: the two node handles and the \<open>stop\<close> closure. The closure
  captures \<open>oscillator\<close> and \<open>note\<close>; the oscillator is the entry's own, the captured
  note is kept in \<open>stop_note\<close>.
\<close>

record voice =
  gain :: nat
  oscillator :: nat
  stop_note :: int

text \<open>
  One \<open>BaseOscillator\<close> together with the nodes it has created. \<open>activeNotes\<close> is a
  JavaScript \<open>Map\<close> and \<open>sustainedNotes\<close> a \<open>Set\<close>: both iterate in insertion order, so
  they are an association list and a list. Numbers are reals; a note number is an integer.
\<close>

record synth =
  activeNotes :: "(int \<times> voice) list"
  detune :: real
  detuneAmount :: real
  stickyPitchBend :: bool
  sustainActive :: bool
  sustainedNotes :: "int list"
  waveform :: string
  isNoteOn :: bool
  osc_nodes :: "oscillator_node list"
  gain_nodes :: "gain_node list"

text \<open>The field initialisers of the class, in a context without nodes.\<close>

definition init :: synth where
  "init = \<lparr> activeNotes = [], detune = 0, detuneAmount = 2, stickyPitchBend = False,
            sustainActive = False, sustainedNotes = [], waveform = ''sine'',
            isNoteOn = False, osc_nodes = [], gain_nodes = [] \<rparr>"

definition noteToFrequency :: "int \<Rightarrow> real" where
  "noteToFrequency note = 2 powr ((real_of_int note - 69) / 12) * 440"

text \<open>The keys of the static \<open>waveforms\<close> object, in the order \<open>Object.keys\<close> lists them.\<close>

definition waveforms :: "string list" where
  "waveforms = [''sawtooth'', ''sine'', ''square'', ''triangle'']"

text \<open>
  Operations on a node through its handle. Every handle the class uses was returned by a
  node constructor, so it is in range; out of range the store is left as it is.
\<close>

definition node_stop :: "nat \<Rightarrow> oscillator_node list \<Rightarrow> oscillator_node list" where
  "node_stop i nodes = (if i < length nodes then nodes[i := (nodes ! i)\<lparr>playing := False\<rparr>] else nodes)"

definition node_set_detune :: "nat \<Rightarrow> real \<Rightarrow> oscillator_node list \<Rightarrow> oscillator_node list" where
  "node_set_detune i d nodes =
     (if i < length nodes then nodes[i := (nodes ! i)\<lparr>osc_detune := d\<rparr>] else nodes)"

definition osc_disconnect :: "nat \<Rightarrow> oscillator_node list \<Rightarrow> oscillator_node list" where
  "osc_disconnect i nodes =
     (if i < length nodes then nodes[i := (nodes ! i)\<lparr>osc_output := None\<rparr>] else nodes)"

definition gain_disconnect :: "nat \<Rightarrow> gain_node list \<Rightarrow> gain_node list" where
  "gain_disconnect i nodes =
     (if i < length nodes then nodes[i := (nodes ! i)\<lparr>to_destination := False\<rparr>] else nodes)"

subsection \<open>The closures created by \<open>start\<close>\<close>

text \<open>
  The \<open>stop\<close> closure of a voice: \<open>oscillator.stop()\<close>, then the captured note is deleted
  from \<open>activeNotes\<close> and from \<open>sustainedNotes\<close>.
\<close>

definition voice_stop :: "voice \<Rightarrow> synth \<Rightarrow> synth" where
  "voice_stop v s =
     s\<lparr> osc_nodes := node_stop (oscillator v) (osc_nodes s),
        activeNotes := AList.delete (stop_note v) (activeNotes s),
        sustainedNotes := removeAll (stop_note v) (sustainedNotes s) \<rparr>"

text \<open>The \<open>onended\<close> closure over \<open>oscillator\<close> and \<open>gain\<close>: both nodes are disconnected.\<close>

definition oscillator_onended :: "nat \<Rightarrow> nat \<Rightarrow> synth \<Rightarrow> synth" where
  "oscillator_onended osc g s =
     s\<lparr> osc_nodes := osc_disconnect osc (osc_nodes s),
        gain_nodes := gain_disconnect g (gain_nodes s) \<rparr>"

subsection \<open>Methods\<close>

text \<open>
  \<open>start(note, velocity = 0.2)\<close>: the default applies when the argument is \<open>undefined\<close>
  (\<open>None\<close>). The new nodes are appended to their stores, so their handles are the
  lengths of the stores before.
\<close>

definition start :: "int \<Rightarrow> real option \<Rightarrow> synth \<Rightarrow> synth" where
  "start note velocity s0 =
     (let s = (case map_of (activeNotes s0) note of
                 Some v \<Rightarrow> voice_stop v s0
               | None \<Rightarrow> s0);
          vel = (case velocity of None \<Rightarrow> 0.2 | Some x \<Rightarrow> x);
          osc = length (osc_nodes s);
          g = length (gain_nodes s);
          new_osc = \<lparr> osc_detune = detune s, osc_frequency = noteToFrequency note,
                      osc_type = waveform s, playing = True, osc_output = Some g,
                      onended = Some g \<rparr>;
          new_gain = \<lparr> gain_value = vel, to_destination = True \<rparr>
      in s\<lparr> osc_nodes := osc_nodes s @ [new_osc],
            gain_nodes := gain_nodes s @ [new_gain],
            activeNotes :=
              AList.update note \<lparr> gain = g, oscillator = osc, stop_note = note \<rparr>
                (activeNotes s) \<rparr>)"

definition stop :: "int \<Rightarrow> synth \<Rightarrow> synth" where
  "stop note s =
     (if sustainActive s then
        (if map_of (activeNotes s) note \<noteq> None \<and> note \<notin> set (sustainedNotes s)
         then s\<lparr> sustainedNotes := sustainedNotes s @ [note] \<rparr>
         else s)
      else
        (case map_of (activeNotes s) note of
           Some v \<Rightarrow> voice_stop v s
         | None \<Rightarrow> s))"

text \<open>
  \<open>for (const { oscillator } of this.activeNotes.values())
  oscillator.detune.setValueAtTime(this.detune, audioCtx.currentTime)\<close>: the parameter
  change is scheduled at the current time, so it is in effect at once.
\<close>

definition apply_detune :: "synth \<Rightarrow> synth" where
  "apply_detune s =
     s\<lparr> osc_nodes :=
          fold (\<lambda>(note, v) nodes. node_set_detune (oscillator v) (detune s) nodes)
            (activeNotes s) (osc_nodes s) \<rparr>"

text \<open>
  \<open>__onDetune\<close>: the argument is \<open>event.currentTarget.valueAsNumber\<close> when the current
  target is a \<open>Fader\<close>, and \<open>None\<close> when it is not.
\<close>

definition onDetune :: "real option \<Rightarrow> synth \<Rightarrow> synth" where
  "onDetune fader s =
     (case fader of
        None \<Rightarrow> s
      | Some x \<Rightarrow> apply_detune (s\<lparr> detune := x * detuneAmount s * 100 \<rparr>))"

text \<open>
  \<open>__onDetuneAmount\<close>: the argument is \<open>valueAsNumber\<close> of the current target when that
  is an \<open>HTMLInputElement\<close>.
\<close>

definition onDetuneAmount :: "real option \<Rightarrow> synth \<Rightarrow> synth" where
  "onDetuneAmount input s =
     (case input of None \<Rightarrow> s | Some x \<Rightarrow> s\<lparr> detuneAmount := x \<rparr>)"

text \<open>
  \<open>__onDetuneStop\<close>: the argument says whether the current target is a \<open>Fader\<close>. The
  assignment to the fader's own \<open>value\<close> is outside the state modelled here.
\<close>

definition onDetuneStop :: "bool \<Rightarrow> synth \<Rightarrow> synth" where
  "onDetuneStop is_fader s =
     (if \<not> is_fader then s
      else if stickyPitchBend s then s
      else apply_detune (s\<lparr> detune := 0 \<rparr>))"

text \<open>
  \<open>__onWaveform\<close>: the argument is the \<open>id\<close> of the event target when that is an
  \<open>HTMLInputElement\<close>; \<open>id.split('-')[0]\<close> is the part before the first hyphen.
\<close>

definition onWaveform :: "string option \<Rightarrow> synth \<Rightarrow> synth" where
  "onWaveform target_id s =
     (case target_id of
        None \<Rightarrow> s
      | Some ident \<Rightarrow>
          (let val = takeWhile (\<lambda>c. c \<noteq> CHR ''-'') ident
           in if val \<notin> set waveforms then s else s\<lparr> waveform := val \<rparr>))"

text \<open>
  \<open>__onStickyToggle\<close>: the first argument is \<open>checked\<close> of the current target when that
  is an \<open>HTMLInputElement\<close>. The handler then dispatches a \<open>mouseup\<close> event on the
  element \<open>#detune\<close>, whose listeners are attached outside this class: the second
  argument is \<open>None\<close> when the event reaches no listener of this class, and \<open>Some b\<close> when
  it reaches \<open>__onDetuneStop\<close>, \<open>b\<close> saying whether its current target is a \<open>Fader\<close>.
\<close>

definition onStickyToggle :: "bool option \<Rightarrow> bool option \<Rightarrow> synth \<Rightarrow> synth" where
  "onStickyToggle input listener s =
     (case input of
        None \<Rightarrow> s
      | Some checked \<Rightarrow>
          (let s1 = s\<lparr> stickyPitchBend := checked \<rparr>
           in case listener of None \<Rightarrow> s1 | Some b \<Rightarrow> onDetuneStop b s1))"

definition onNoteOn :: "int \<Rightarrow> real option \<Rightarrow> synth \<Rightarrow> synth" where
  "onNoteOn note velocity s = start note velocity (s\<lparr> isNoteOn := True \<rparr>)"

definition onNoteOff :: "int \<Rightarrow> synth \<Rightarrow> synth" where
  "onNoteOff note s = stop note (s\<lparr> isNoteOn := False \<rparr>)"

definition onSustainOn :: "synth \<Rightarrow> synth" where
  "onSustainOn s = s\<lparr> sustainActive := True \<rparr>"

text \<open>
  \<open>for (const note of this.sustainedNotes) this.stop(note)\<close>. The iteration of a \<open>Set\<close>
  is live: it visits the entries in insertion order, skips an entry deleted before it is
  reached, and goes on after the current entry is deleted. The body never adds an entry
  (\<open>sustainActive\<close> is false by then), so the entries to visit are those of the set at
  the start of the loop that are still in it when their turn comes.
\<close>

fun stop_each :: "int list \<Rightarrow> synth \<Rightarrow> synth" where
  "stop_each [] s = s"
| "stop_each (note # notes) s =
     stop_each notes (if note \<in> set (sustainedNotes s) then stop note s else s)"

definition onSustainOff :: "synth \<Rightarrow> synth" where
  "onSustainOff s = stop_each (sustainedNotes s) (s\<lparr> sustainActive := False \<rparr>)"

subsection \<open>Runs\<close>

text \<open>
  What can happen to a \<open>BaseOscillator\<close>: a call of one of its handlers, or the audio
  context firing the \<open>ended\<close> event of an oscillator node. An oscillator node ends only
  after its \<open>stop()\<close>, so \<open>Ended i\<close> has an effect only on a node that exists and is
  no longer sounding; it then runs the node's \<open>onended\<close> callback.
\<close>

datatype event =
    NoteOn int "real option"
  | NoteOff int
  | SustainOn
  | SustainOff
  | Detune "real option"
  | DetuneAmount "real option"
  | DetuneStop bool
  | Waveform "string option"
  | StickyToggle "bool option" "bool option"
  | Ended nat

fun step :: "event \<Rightarrow> synth \<Rightarrow> synth" where
  "step (NoteOn note velocity) s = onNoteOn note velocity s"
| "step (NoteOff note) s = onNoteOff note s"
| "step SustainOn s = onSustainOn s"
| "step SustainOff s = onSustainOff s"
| "step (Detune fader) s = onDetune fader s"
| "step (DetuneAmount input) s = onDetuneAmount input s"
| "step (DetuneStop is_fader) s = onDetuneStop is_fader s"
| "step (Waveform target_id) s = onWaveform target_id s"
| "step (StickyToggle input listener) s = onStickyToggle input listener s"
| "step (Ended i) s =
     (if i < length (osc_nodes s) \<and> \<not> playing (osc_nodes s ! i)
      then (case onended (osc_nodes s ! i) of
              Some g \<Rightarrow> oscillator_onended i g s
            | None \<Rightarrow> s)
      else s)"

definition run :: "event list \<Rightarrow> synth \<Rightarrow> synth" where
  "run evs s = fold step evs s"

subsection \<open>Observations\<close>

text \<open>
  The live voices of a note: the handles of the oscillator nodes that are sounding at the
  note's frequency.
\<close>

definition live_voices :: "synth \<Rightarrow> int \<Rightarrow> nat list" where
  "live_voices s note =
     filter (\<lambda>i. playing (osc_nodes s ! i) \<and> osc_frequency (osc_nodes s ! i) = noteToFrequency note)
       [0..<length (osc_nodes s)]"

text \<open>Whether the oscillator node of a voice is sounding.\<close>

definition sounding :: "synth \<Rightarrow> voice \<Rightarrow> bool" where
  "sounding s v = (oscillator v < length (osc_nodes s) \<and> playing (osc_nodes s ! oscillator v))"

subsection \<open>Auxiliary notions\<close>

text \<open>
  The bookkeeping of a \<open>BaseOscillator\<close> is consistent when: no note occurs twice among
  the keys of \<open>activeNotes\<close> or in \<open>sustainedNotes\<close>; every sustained note has an entry
  in \<open>activeNotes\<close>; the entry of a note holds the \<open>stop\<close> closure made for that note,
  and its oscillator node is sounding at the note's frequency; and every sounding
  oscillator node is the oscillator of some entry.
\<close>

definition consistent :: "synth \<Rightarrow> bool" where
  "consistent s \<longleftrightarrow>
     distinct (map fst (activeNotes s)) \<and>
     distinct (sustainedNotes s) \<and>
     (\<forall>n \<in> set (sustainedNotes s). map_of (activeNotes s) n \<noteq> None) \<and>
     (\<forall>n v. map_of (activeNotes s) n = Some v \<longrightarrow>
        stop_note v = n \<and> sounding s v \<and>
        osc_frequency (osc_nodes s ! oscillator v) = noteToFrequency n) \<and>
     (\<forall>i < length (osc_nodes s). playing (osc_nodes s ! i) \<longrightarrow>
        (\<exists>n v. map_of (activeNotes s) n = Some v \<and> oscillator v = i))"

text \<open>
  The two halves of \<open>start\<close>: the retrigger of a note that is already active, and the
  creation of the new voice.
\<close>

definition release_if_active :: "int \<Rightarrow> synth \<Rightarrow> synth" where
  "release_if_active note s =
     (case map_of (activeNotes s) note of Some v \<Rightarrow> voice_stop v s | None \<Rightarrow> s)"

definition add_voice :: "int \<Rightarrow> real option \<Rightarrow> synth \<Rightarrow> synth" where
  "add_voice note velocity s =
     s\<lparr> osc_nodes := osc_nodes s @
          [\<lparr> osc_detune = detune s, osc_frequency = noteToFrequency note,
             osc_type = waveform s, playing = True, osc_output = Some (length (gain_nodes s)),
             onended = Some (length (gain_nodes s)) \<rparr>],
        gain_nodes := gain_nodes s @
          [\<lparr> gain_value = (case velocity of None \<Rightarrow> 0.2 | Some x \<Rightarrow> x),
             to_destination = True \<rparr>],
        activeNotes :=
          AList.update note
            \<lparr> gain = length (gain_nodes s), oscillator = length (osc_nodes s), stop_note = note \<rparr>
            (activeNotes s) \<rparr>"


section \<open>Properties of the decoder\<close>

lemmas midi_consts =
  NOTE_OFF_def NOTE_ON_def CONTROL_CHANGE_def PITCH_WHEEL_def MODWHEEL_def SUSTAIN_def
  NUM_MIDI_CHANNELS_def

lemma byte_at3:
  "byte_at [s, a, b] 0 = Some (unat s)"
  "byte_at [s, a, b] 1 = Some (unat a)"
  "byte_at [s, a, b] (Suc 0) = Some (unat a)"
  "byte_at [s, a, b] 2 = Some (unat b)"
  by (simp_all add: byte_at_def)

text \<open>\<open>data[0] - data[0] % 16\<close> is sixteen times the high nibble of the status byte.\<close>

lemma command_eq: "st - st mod 16 = 16 * (st div 16)" for st :: nat
  by (simp add: minus_mod_eq_mult_div)

lemma high_nibble_range:
  "(st div 16 = 9) = (144 \<le> st \<and> st \<le> 159)"
  "(st div 16 = 8) = (128 \<le> st \<and> st \<le> 143)"
  "(st div 16 = 14) = (224 \<le> st \<and> st \<le> 239)"
  "(st div 16 = 11) = (176 \<le> st \<and> st \<le> 191)" for st :: nat
  by arith+

lemma command_cases:
  fixes st :: nat
  shows "(st - st mod 16 = 144) = (144 \<le> st \<and> st \<le> 159)"
    and "(st - st mod 16 = 128) = (128 \<le> st \<and> st \<le> 143)"
    and "(st - st mod 16 = 224) = (224 \<le> st \<and> st \<le> 239)"
    and "(st - st mod 16 = 176) = (176 \<le> st \<and> st \<le> 191)"
  unfolding command_eq using high_nibble_range [of st] by simp_all

lemmas decode_simps = getEventForData_def byte_at3 midi_consts Let_def command_cases

lemma unat_byte_le: "unat (w :: 8 word) \<le> 255"
  using unsigned_less [of w, where 'a = nat] by simp

lemma decode_out_of_range:
  "unat s < 128 \<or> 240 \<le> unat s \<Longrightarrow> getEventForData [s, a, b] = None"
  by (simp add: decode_simps)

lemma decode_note_on:
  "144 \<le> unat s \<Longrightarrow> unat s \<le> 159 \<Longrightarrow>
   getEventForData [s, a, b] =
     (if b \<noteq> 0
      then Some (NoteOnEvent (unat s mod 16) (Some (unat a)) (Some (real (unat b) / 255)))
      else Some (NoteOffEvent (unat s mod 16) (Some (unat a))))"
  by (simp add: decode_simps js_div_def truthy_num_def unsigned_eq_0_iff)

lemma decode_note_off:
  "128 \<le> unat s \<Longrightarrow> unat s \<le> 143 \<Longrightarrow>
   getEventForData [s, a, b] = Some (NoteOffEvent (unat s mod 16) (Some (unat a)))"
  by (simp add: decode_simps)

lemma decode_pitch_wheel:
  "224 \<le> unat s \<Longrightarrow> unat s \<le> 239 \<Longrightarrow>
   getEventForData [s, a, b] =
     Some (PitchWheelEvent (Some (real (unat a + unat b * 256) / 65535)))"
  by (simp add: decode_simps pitch_value_def push_bit_eq_mult)

lemma decode_not_note_on:
  "unat s < 144 \<or> 159 < unat s \<Longrightarrow>
   getEventForData [s, a, b] \<noteq> Some (NoteOnEvent c n vel)"
  by (elim disjE) (simp_all add: decode_simps)

lemma pitch_le_one: "real (unat (a :: 8 word) + unat (b :: 8 word) * 256) / 65535 \<le> 1"
proof -
  have "unat a + unat b * 256 \<le> 65535"
    using unat_byte_le [of a] unat_byte_le [of b] by linarith
  then have "real (unat a + unat b * 256) \<le> real 65535"
    by (rule of_nat_mono)
  then show ?thesis
    by (simp del: of_nat_unat of_nat_add of_nat_mult)
qed

lemma pitch_nonneg: "0 \<le> real (unat (a :: 8 word) + unat (b :: 8 word) * 256) / 65535"
  by (rule divide_nonneg_nonneg) (rule of_nat_0_le_iff, simp)

text \<open>
  Claim C5. A Note-On message (status \<open>0x90..0x9F\<close>) whose velocity byte is 0 decodes
  to the same event as a Note-Off message (status \<open>0x80..0x8F\<close>) for the same channel
  and note, whatever the velocity byte of the latter: \<open>noteOff\<close> with that channel and
  note. A three-byte message decodes to a \<open>noteOn\<close> event exactly when its command is
  Note-On and its velocity byte is not 0; the event then carries the channel, the note
  and the velocity byte divided by 255. In particular \<open>[0x90, 60, 0]\<close> and
  \<open>[0x80, 60, 0]\<close> both decode to \<open>noteOff\<close> for note 60.
\<close>

theorem note_on_velocity_zero_is_note_off:
  fixes s s' key v :: "8 word"
  shows
  "(144 \<le> unat s \<and> unat s \<le> 159 \<and> 128 \<le> unat s' \<and> unat s' \<le> 143 \<and>
    unat s mod 16 = unat s' mod 16 \<longrightarrow>
      getEventForData [s, key, 0] = Some (NoteOffEvent (unat s mod 16) (Some (unat key))) \<and>
      getEventForData [s', key, v] = Some (NoteOffEvent (unat s mod 16) (Some (unat key))))
   \<and> (getEventForData [s, key, v] = Some (NoteOnEvent c n vel) \<longleftrightarrow>
        144 \<le> unat s \<and> unat s \<le> 159 \<and> v \<noteq> 0 \<and> c = unat s mod 16 \<and>
        n = Some (unat key) \<and> vel = Some (real (unat v) / 255))
   \<and> getEventForData [0x90, 60, 0] = Some (NoteOffEvent 0 (Some 60))
   \<and> getEventForData [0x80, 60, 0] = Some (NoteOffEvent 0 (Some 60))"
proof (intro conjI impI)
  assume h: "144 \<le> unat s \<and> unat s \<le> 159 \<and> 128 \<le> unat s' \<and> unat s' \<le> 143 \<and>
    unat s mod 16 = unat s' mod 16"
  show "getEventForData [s, key, 0] = Some (NoteOffEvent (unat s mod 16) (Some (unat key)))"
    using h by (simp add: decode_note_on)
  show "getEventForData [s', key, v] = Some (NoteOffEvent (unat s mod 16) (Some (unat key)))"
    using h by (simp add: decode_note_off)
next
  show "getEventForData [s, key, v] = Some (NoteOnEvent c n vel) \<longleftrightarrow>
        144 \<le> unat s \<and> unat s \<le> 159 \<and> v \<noteq> 0 \<and> c = unat s mod 16 \<and>
        n = Some (unat key) \<and> vel = Some (real (unat v) / 255)"
  proof (cases "144 \<le> unat s \<and> unat s \<le> 159")
    case True
    then show ?thesis
      by (auto simp add: decode_note_on)
  next
    case False
    then have "unat s < 144 \<or> 159 < unat s"
      by linarith
    from decode_not_note_on [OF this] False show ?thesis
      by blast
  qed
next
  show "getEventForData [0x90, 60, 0] = Some (NoteOffEvent 0 (Some 60))"
    by (simp add: decode_note_on)
  show "getEventForData [0x80, 60, 0] = Some (NoteOffEvent 0 (Some 60))"
    by (simp add: decode_note_off)
qed

theorem note_on_velocity_zero_is_note_off_witness:
  "144 \<le> unat (0x93 :: 8 word) \<and> unat (0x93 :: 8 word) \<le> 159 \<and>
   128 \<le> unat (0x83 :: 8 word) \<and> unat (0x83 :: 8 word) \<le> 143 \<and>
   unat (0x93 :: 8 word) mod 16 = unat (0x83 :: 8 word) mod 16 \<and>
   getEventForData [0x93, 60, 0] = Some (NoteOffEvent 3 (Some 60)) \<and>
   getEventForData [0x83, 60, 127] = Some (NoteOffEvent 3 (Some 60)) \<and>
   getEventForData [0x93, 60, 127] = Some (NoteOnEvent 3 (Some 60) (Some (127 / 255)))"
  using note_on_velocity_zero_is_note_off
    [of "0x93" "0x83" 60 127 3 "Some 60" "Some (127 / 255)"]
  by simp

text \<open>
  Claim C6. A three-byte message whose status byte is below \<open>0x80\<close>, or at or above
  \<open>0xF0\<close>, decodes to no event: the function returns nothing, it does not fail.
\<close>

theorem unsupported_status_dropped:
  fixes s a b :: "8 word"
  shows "unat s < 0x80 \<or> 0xF0 \<le> unat s \<Longrightarrow> getEventForData [s, a, b] = None"
  by (simp add: decode_out_of_range)

theorem unsupported_status_dropped_witness:
  "(unat (0xF8 :: 8 word) < 0x80 \<or> 0xF0 \<le> unat (0xF8 :: 8 word)) \<and>
   getEventForData [0xF8, 0, 0] = None \<and>
   (unat (0x3C :: 8 word) < 0x80 \<or> 0xF0 \<le> unat (0x3C :: 8 word)) \<and>
   getEventForData [0x3C, 1, 2] = None"
  using unsupported_status_dropped [of "0xF8" 0 0] unsupported_status_dropped [of "0x3C" 1 2]
  by simp

text \<open>
  Claim C7. A Pitch-Wheel message (status \<open>0xE0..0xEF\<close>) decodes to \<open>pitchWheel\<close> with
  value \<open>(bytes[1] + bytes[2] * 256) / 65535\<close>, and that value lies between 0 and 1.
  In particular \<open>[0xE0, 0x00, 0x40]\<close> decodes to the value \<open>(0 + 0x40 * 256) / 65535\<close>.
\<close>

theorem pitch_wheel_value:
  fixes s a b :: "8 word"
  shows
  "(224 \<le> unat s \<and> unat s \<le> 239 \<longrightarrow>
      getEventForData [s, a, b] =
        Some (PitchWheelEvent (Some (real (unat a + unat b * 256) / 65535))) \<and>
      0 \<le> real (unat a + unat b * 256) / 65535 \<and>
      real (unat a + unat b * 256) / 65535 \<le> 1)
   \<and> getEventForData [0xE0, 0x00, 0x40] =
        Some (PitchWheelEvent (Some ((0 + 0x40 * 256) / 65535)))"
  using pitch_le_one [of a b] pitch_nonneg [of a b]
  by (simp add: decode_pitch_wheel del: of_nat_unat of_nat_add of_nat_mult)

theorem pitch_wheel_value_witness:
  "224 \<le> unat (0xE5 :: 8 word) \<and> unat (0xE5 :: 8 word) \<le> 239 \<and>
   getEventForData [0xE5, 0xFF, 0xFF] = Some (PitchWheelEvent (Some 1)) \<and>
   getEventForData [0xE5, 0x7F, 0x7F] = Some (PitchWheelEvent (Some (32639 / 65535)))"
  using pitch_wheel_value [of "0xE5" "0xFF" "0xFF"] pitch_wheel_value [of "0xE5" "0x7F" "0x7F"]
  by simp

section \<open>Properties of the voice management\<close>

subsection \<open>Consistency is preserved by every event\<close>

lemma noteToFrequency_inj: "noteToFrequency n = noteToFrequency m \<Longrightarrow> n = m"
proof -
  assume "noteToFrequency n = noteToFrequency m"
  then have "(2::real) powr ((real_of_int n - 69) / 12) = 2 powr ((real_of_int m - 69) / 12)"
    by (simp add: noteToFrequency_def)
  then have "(real_of_int n - 69) / 12 = (real_of_int m - 69) / 12"
    by (simp add: powr_inj)
  then show ?thesis by simp
qed

lemma length_node_stop [simp]: "length (node_stop i nodes) = length nodes"
  by (simp add: node_stop_def)

lemma nth_node_stop:
  "i < length nodes \<Longrightarrow>
   node_stop j nodes ! i = (if i = j then (nodes ! i)\<lparr>playing := False\<rparr> else nodes ! i)"
  by (simp add: node_stop_def nth_list_update)

lemma length_node_set_detune [simp]: "length (node_set_detune i d nodes) = length nodes"
  by (simp add: node_set_detune_def)

lemma nth_node_set_detune:
  "i < length nodes \<Longrightarrow>
   node_set_detune j d nodes ! i = (if i = j then (nodes ! i)\<lparr>osc_detune := d\<rparr> else nodes ! i)"
  by (simp add: node_set_detune_def nth_list_update)

lemma length_osc_disconnect [simp]: "length (osc_disconnect i nodes) = length nodes"
  by (simp add: osc_disconnect_def)

lemma nth_osc_disconnect:
  "i < length nodes \<Longrightarrow>
   osc_disconnect j nodes ! i = (if i = j then (nodes ! i)\<lparr>osc_output := None\<rparr> else nodes ! i)"
  by (simp add: osc_disconnect_def nth_list_update)

lemma active_key: "(n \<in> fst ` set al) = (map_of al n \<noteq> None)"
  by (simp add: map_of_eq_None_iff)


lemma consistent_voice:
  "consistent s \<Longrightarrow> map_of (activeNotes s) n = Some v \<Longrightarrow>
   stop_note v = n \<and> sounding s v \<and>
   osc_frequency (osc_nodes s ! oscillator v) = noteToFrequency n"
  unfolding consistent_def by blast

lemma consistent_playing:
  "consistent s \<Longrightarrow> i < length (osc_nodes s) \<Longrightarrow> playing (osc_nodes s ! i) \<Longrightarrow>
   \<exists>n v. map_of (activeNotes s) n = Some v \<and> oscillator v = i"
  unfolding consistent_def by blast

lemma consistent_sustained:
  "consistent s \<Longrightarrow> n \<in> set (sustainedNotes s) \<Longrightarrow> \<exists>v. map_of (activeNotes s) n = Some v"
  unfolding consistent_def by blast

lemma consistent_distinct:
  "consistent s \<Longrightarrow> distinct (map fst (activeNotes s)) \<and> distinct (sustainedNotes s)"
  unfolding consistent_def by blast

lemma consistentI:
  assumes "distinct (map fst (activeNotes s))" "distinct (sustainedNotes s)"
    "\<And>n. n \<in> set (sustainedNotes s) \<Longrightarrow> \<exists>v. map_of (activeNotes s) n = Some v"
    "\<And>n v. map_of (activeNotes s) n = Some v \<Longrightarrow>
       stop_note v = n \<and> sounding s v \<and>
       osc_frequency (osc_nodes s ! oscillator v) = noteToFrequency n"
    "\<And>i. i < length (osc_nodes s) \<Longrightarrow> playing (osc_nodes s ! i) \<Longrightarrow>
       \<exists>n v. map_of (activeNotes s) n = Some v \<and> oscillator v = i"
  shows "consistent s"
  unfolding consistent_def using assms by (intro conjI ballI allI impI) blast+

lemma same_oscillator_same_note:
  assumes "consistent s" "map_of (activeNotes s) n = Some v" "map_of (activeNotes s) m = Some w"
    "oscillator v = oscillator w"
  shows "n = m"
proof -
  have "osc_frequency (osc_nodes s ! oscillator v) = noteToFrequency n"
    "osc_frequency (osc_nodes s ! oscillator w) = noteToFrequency m"
    using assms consistent_voice by blast+
  with assms(4) show ?thesis by (simp add: noteToFrequency_inj)
qed

lemma voice_stop_fields [simp]:
  "activeNotes (voice_stop v s) = AList.delete (stop_note v) (activeNotes s)"
  "sustainedNotes (voice_stop v s) = removeAll (stop_note v) (sustainedNotes s)"
  "osc_nodes (voice_stop v s) = node_stop (oscillator v) (osc_nodes s)"
  "gain_nodes (voice_stop v s) = gain_nodes s"
  "sustainActive (voice_stop v s) = sustainActive s"
  "detune (voice_stop v s) = detune s"
  "detuneAmount (voice_stop v s) = detuneAmount s"
  "stickyPitchBend (voice_stop v s) = stickyPitchBend s"
  "waveform (voice_stop v s) = waveform s"
  "isNoteOn (voice_stop v s) = isNoteOn s"
  by (simp_all add: voice_stop_def)

lemma consistent_voice_stop:
  assumes c: "consistent s" and v: "map_of (activeNotes s) n = Some v"
  shows "consistent (voice_stop v s)"
proof (rule consistentI)
  have sn: "stop_note v = n" using consistent_voice[OF c v] by simp
  have other: "oscillator w \<noteq> oscillator v" if "map_of (activeNotes s) m = Some w" "m \<noteq> n" for m w
    using same_oscillator_same_note[OF c v that(1)] that(2) by auto
  show "distinct (map fst (activeNotes (voice_stop v s)))"
    using consistent_distinct[OF c] by (simp add: distinct_delete)
  show "distinct (sustainedNotes (voice_stop v s))"
    using consistent_distinct[OF c] by (simp add: distinct_removeAll)
  show "\<exists>w. map_of (activeNotes (voice_stop v s)) m = Some w"
    if "m \<in> set (sustainedNotes (voice_stop v s))" for m
    using that consistent_sustained[OF c, of m] by (auto simp: delete_conv')
  show "stop_note w = m \<and> sounding (voice_stop v s) w \<and>
        osc_frequency (osc_nodes (voice_stop v s) ! oscillator w) = noteToFrequency m"
    if "map_of (activeNotes (voice_stop v s)) m = Some w" for m w
  proof -
    from that have mw: "map_of (activeNotes s) m = Some w" and ne: "m \<noteq> n"
      by (auto simp: delete_conv' sn split: if_splits)
    from consistent_voice[OF c mw] other[OF mw ne]
    show ?thesis
      by (simp add: sounding_def nth_node_stop)
  qed
  show "\<exists>n v'. map_of (activeNotes (voice_stop v s)) n = Some v' \<and> oscillator v' = i"
    if i: "i < length (osc_nodes (voice_stop v s))"
      and p: "playing (osc_nodes (voice_stop v s) ! i)" for i
  proof -
    from i have i': "i < length (osc_nodes s)" by simp
    from p i' have ne: "i \<noteq> oscillator v" and p': "playing (osc_nodes s ! i)"
      by (auto simp: nth_node_stop split: if_splits)
    from consistent_playing[OF c i' p'] obtain m w
      where mw: "map_of (activeNotes s) m = Some w" "oscillator w = i"
      by blast
    with ne v have "m \<noteq> n" by auto
    with mw show ?thesis
      by (auto simp: delete_conv' sn)
  qed
qed

lemma start_eq: "start note velocity s = add_voice note velocity (release_if_active note s)"
  by (simp add: start_def add_voice_def release_if_active_def Let_def)

lemma consistent_release:
  "consistent s \<Longrightarrow> consistent (release_if_active note s)"
  by (auto simp: release_if_active_def consistent_voice_stop split: option.splits)

lemma release_inactive:
  assumes "consistent s"
  shows "map_of (activeNotes (release_if_active note s)) note = None"
proof (cases "map_of (activeNotes s) note")
  case None
  then show ?thesis by (simp add: release_if_active_def)
next
  case (Some v)
  with consistent_voice[OF assms Some] show ?thesis
    by (simp add: release_if_active_def delete_conv')
qed

lemma consistent_add_voice:
  assumes c: "consistent s" and free: "map_of (activeNotes s) note = None"
  shows "consistent (add_voice note velocity s)"
proof (rule consistentI)
  let ?s' = "add_voice note velocity s"
  have m: "map_of (activeNotes ?s') =
    (map_of (activeNotes s))(note \<mapsto>
      \<lparr> gain = length (gain_nodes s), oscillator = length (osc_nodes s), stop_note = note \<rparr>)"
    by (simp add: add_voice_def update_conv')
  have nodes: "osc_nodes ?s' = osc_nodes s @
          [\<lparr> osc_detune = detune s, osc_frequency = noteToFrequency note,
             osc_type = waveform s, playing = True, osc_output = Some (length (gain_nodes s)),
             onended = Some (length (gain_nodes s)) \<rparr>]"
    by (simp add: add_voice_def)
  show "distinct (map fst (activeNotes ?s'))"
    using consistent_distinct[OF c] by (simp add: add_voice_def distinct_update)
  show "distinct (sustainedNotes ?s')"
    using consistent_distinct[OF c] by (simp add: add_voice_def)
  show "\<exists>w. map_of (activeNotes ?s') k = Some w" if "k \<in> set (sustainedNotes ?s')" for k
  proof -
    from that have "k \<in> set (sustainedNotes s)" by (simp add: add_voice_def)
    from consistent_sustained[OF c this] show ?thesis unfolding m by auto
  qed
  show "stop_note w = k \<and> sounding ?s' w \<and>
        osc_frequency (osc_nodes ?s' ! oscillator w) = noteToFrequency k"
    if "map_of (activeNotes ?s') k = Some w" for k w
  proof (cases "k = note")
    case True
    with that have "w = \<lparr> gain = length (gain_nodes s), oscillator = length (osc_nodes s),
      stop_note = note \<rparr>"
      unfolding m by simp
    with True show ?thesis by (simp add: sounding_def nodes)
  next
    case False
    with that have "map_of (activeNotes s) k = Some w" unfolding m by simp
    from consistent_voice[OF c this] show ?thesis
      by (simp add: sounding_def nodes nth_append)
  qed
  show "\<exists>k w. map_of (activeNotes ?s') k = Some w \<and> oscillator w = i"
    if i: "i < length (osc_nodes ?s')" and p: "playing (osc_nodes ?s' ! i)" for i
  proof (cases "i = length (osc_nodes s)")
    case True
    then show ?thesis unfolding m by (intro exI[of _ "note"]) simp
  next
    case False
    with i have i': "i < length (osc_nodes s)" by (simp add: nodes)
    with p have "playing (osc_nodes s ! i)" by (simp add: nodes nth_append)
    from consistent_playing[OF c i' this] obtain k w
      where kw: "map_of (activeNotes s) k = Some w" "oscillator w = i" by blast
    with free have "k \<noteq> note" by auto
    with kw show ?thesis unfolding m by auto
  qed
qed

lemma consistent_start: "consistent s \<Longrightarrow> consistent (start note velocity s)"
  by (simp add: start_eq consistent_add_voice consistent_release release_inactive)

lemma consistent_stop:
  assumes c: "consistent s"
  shows "consistent (stop note s)"
proof (cases "sustainActive s \<and> map_of (activeNotes s) note \<noteq> None \<and> note \<notin> set (sustainedNotes s)")
  case True
  then have eq: "stop note s = s\<lparr> sustainedNotes := sustainedNotes s @ [note] \<rparr>"
    by (simp add: stop_def)
  show ?thesis unfolding eq
  proof (rule consistentI)
    show "\<exists>v. map_of (activeNotes (s\<lparr>sustainedNotes := sustainedNotes s @ [note]\<rparr>)) k = Some v"
      if "k \<in> set (sustainedNotes (s\<lparr>sustainedNotes := sustainedNotes s @ [note]\<rparr>))" for k
      using that True consistent_sustained[OF c, of k] by auto
  qed (use c True consistent_distinct[OF c] consistent_voice[OF c] consistent_playing[OF c]
       in \<open>simp_all add: sounding_def\<close>)
next
  case False
  then show ?thesis
    using c by (auto simp: stop_def consistent_voice_stop split: option.splits)
qed

lemma consistent_stop_each: "consistent s \<Longrightarrow> consistent (stop_each ns s)"
  by (induction ns arbitrary: s) (simp_all add: consistent_stop)

lemma fold_detune_length [simp]:
  "length (fold (\<lambda>(k, v) nodes. node_set_detune (oscillator v) d nodes) al nodes) = length nodes"
  by (induction al arbitrary: nodes) auto

lemma fold_detune_nth:
  "i < length nodes \<Longrightarrow>
   fold (\<lambda>(k, v) nodes. node_set_detune (oscillator v) d nodes) al nodes ! i =
     (if i \<in> oscillator ` snd ` set al then (nodes ! i)\<lparr>osc_detune := d\<rparr> else nodes ! i)"
proof (induction al arbitrary: nodes)
  case Nil
  then show ?case by simp
next
  case (Cons a al)
  obtain k v where a: "a = (k, v)" by (cases a)
  from Cons.prems have "i < length (node_set_detune (oscillator v) d nodes)" by simp
  from Cons.IH[OF this] Cons.prems show ?case
    by (auto simp: a nth_node_set_detune)
qed

lemma apply_detune_fields [simp]:
  "activeNotes (apply_detune s) = activeNotes s"
  "sustainedNotes (apply_detune s) = sustainedNotes s"
  "sustainActive (apply_detune s) = sustainActive s"
  "detune (apply_detune s) = detune s"
  "length (osc_nodes (apply_detune s)) = length (osc_nodes s)"
  by (simp_all add: apply_detune_def)

lemma apply_detune_nth:
  "i < length (osc_nodes s) \<Longrightarrow>
   osc_nodes (apply_detune s) ! i =
     (if i \<in> oscillator ` snd ` set (activeNotes s)
      then (osc_nodes s ! i)\<lparr>osc_detune := detune s\<rparr> else osc_nodes s ! i)"
  by (simp add: apply_detune_def fold_detune_nth)

lemma consistent_same_sound:
  assumes c: "consistent s"
    and a: "activeNotes s' = activeNotes s" and su: "sustainedNotes s' = sustainedNotes s"
    and l: "length (osc_nodes s') = length (osc_nodes s)"
    and p: "\<And>i. i < length (osc_nodes s) \<Longrightarrow>
              playing (osc_nodes s' ! i) = playing (osc_nodes s ! i) \<and>
              osc_frequency (osc_nodes s' ! i) = osc_frequency (osc_nodes s ! i)"
  shows "consistent s'"
proof (rule consistentI)
  show "stop_note v = n \<and> sounding s' v \<and>
        osc_frequency (osc_nodes s' ! oscillator v) = noteToFrequency n"
    if "map_of (activeNotes s') n = Some v" for n v
  proof -
    from that have "map_of (activeNotes s) n = Some v" by (simp add: a)
    from consistent_voice[OF c this] p[of "oscillator v"] show ?thesis
      by (simp add: sounding_def l)
  qed
  show "\<exists>n v. map_of (activeNotes s') n = Some v \<and> oscillator v = i"
    if "i < length (osc_nodes s')" "playing (osc_nodes s' ! i)" for i
    using that consistent_playing[OF c, of i] p[of i] by (simp add: a l)
qed (use consistent_distinct[OF c] consistent_sustained[OF c] in \<open>simp_all add: a su\<close>)

lemma consistent_apply_detune:
  assumes c: "consistent s"
  shows "consistent (apply_detune s)"
  by (rule consistent_same_sound [OF c]) (simp_all add: apply_detune_nth)

lemma consistent_set_detune: "consistent s \<Longrightarrow> consistent (s\<lparr>detune := d\<rparr>)"
  by (rule consistent_same_sound) simp_all

lemma consistent_onDetune: "consistent s \<Longrightarrow> consistent (onDetune fader s)"
  by (simp add: onDetune_def consistent_apply_detune consistent_set_detune split: option.splits)

lemma consistent_onDetuneStop: "consistent s \<Longrightarrow> consistent (onDetuneStop is_fader s)"
  by (simp add: onDetuneStop_def consistent_apply_detune consistent_set_detune)

lemma consistent_onDetuneAmount: "consistent s \<Longrightarrow> consistent (onDetuneAmount input s)"
  by (cases input) (simp_all add: onDetuneAmount_def consistent_same_sound [of s])

lemma consistent_onWaveform: "consistent s \<Longrightarrow> consistent (onWaveform target_id s)"
  by (cases target_id) (simp_all add: onWaveform_def Let_def consistent_same_sound [of s])

lemma consistent_onStickyToggle: "consistent s \<Longrightarrow> consistent (onStickyToggle input listener s)"
proof (cases input)
  case None
  assume "consistent s"
  with None show ?thesis by (simp add: onStickyToggle_def)
next
  case (Some checked)
  assume "consistent s"
  then have "consistent (s\<lparr>stickyPitchBend := checked\<rparr>)"
    by (rule consistent_same_sound) simp_all
  with Some show ?thesis
    by (cases listener) (simp_all add: onStickyToggle_def consistent_onDetuneStop)
qed

lemma consistent_onNoteOn: "consistent s \<Longrightarrow> consistent (onNoteOn n velocity s)"
  unfolding onNoteOn_def
  by (rule consistent_start, rule consistent_same_sound) simp_all

lemma consistent_onNoteOff: "consistent s \<Longrightarrow> consistent (onNoteOff n s)"
  unfolding onNoteOff_def
  by (rule consistent_stop, rule consistent_same_sound) simp_all

lemma consistent_onSustainOn: "consistent s \<Longrightarrow> consistent (onSustainOn s)"
  unfolding onSustainOn_def by (rule consistent_same_sound) simp_all

lemma consistent_onSustainOff: "consistent s \<Longrightarrow> consistent (onSustainOff s)"
  unfolding onSustainOff_def
  by (rule consistent_stop_each, rule consistent_same_sound) simp_all

lemma onended_fields [simp]:
  "activeNotes (oscillator_onended i g s) = activeNotes s"
  "sustainedNotes (oscillator_onended i g s) = sustainedNotes s"
  "osc_nodes (oscillator_onended i g s) = osc_disconnect i (osc_nodes s)"
  "gain_nodes (oscillator_onended i g s) = gain_disconnect g (gain_nodes s)"
  by (simp_all add: oscillator_onended_def)

lemma consistent_onended:
  assumes c: "consistent s"
  shows "consistent (oscillator_onended i g s)"
proof (rule consistent_same_sound [OF c])
  show "playing (osc_nodes (oscillator_onended i g s) ! k) = playing (osc_nodes s ! k) \<and>
       osc_frequency (osc_nodes (oscillator_onended i g s) ! k) = osc_frequency (osc_nodes s ! k)"
    if "k < length (osc_nodes s)" for k
    using that by (simp add: nth_osc_disconnect)
qed simp_all

lemma consistent_step: "consistent s \<Longrightarrow> consistent (step e s)"
  by (cases e)
    (simp_all add: consistent_onNoteOn consistent_onNoteOff consistent_onSustainOn
      consistent_onSustainOff consistent_onDetune consistent_onDetuneAmount
      consistent_onDetuneStop consistent_onWaveform consistent_onStickyToggle
      consistent_onended split: option.splits)

lemma consistent_init: "consistent init"
  by (simp add: consistent_def init_def)

lemma consistent_fold: "consistent s \<Longrightarrow> consistent (fold step evs s)"
  by (induction evs arbitrary: s) (simp_all add: consistent_step)

lemma consistent_run: "consistent (run evs init)"
  by (simp add: run_def consistent_fold consistent_init)

subsection \<open>Live voices\<close>

lemma run_snoc: "run (evs @ [e]) s = step e (run evs s)"
  by (simp add: run_def)

lemma distinct_live_voices: "distinct (live_voices s n)"
  by (simp add: live_voices_def)

lemma live_voicesD:
  assumes c: "consistent s" and i: "i \<in> set (live_voices s n)"
  shows "\<exists>v. map_of (activeNotes s) n = Some v \<and> oscillator v = i"
proof -
  from i have il: "i < length (osc_nodes s)" and p: "playing (osc_nodes s ! i)"
    and f: "osc_frequency (osc_nodes s ! i) = noteToFrequency n"
    by (simp_all add: live_voices_def)
  from consistent_playing[OF c il p] obtain k w
    where kw: "map_of (activeNotes s) k = Some w" "oscillator w = i" by blast
  from consistent_voice[OF c kw(1)] kw(2) f have "noteToFrequency k = noteToFrequency n"
    by simp
  then have "k = n" by (rule noteToFrequency_inj)
  with kw show ?thesis by blast
qed

lemma distinct_set_singleton: "distinct xs \<Longrightarrow> set xs = {a} \<Longrightarrow> xs = [a]"
proof (cases xs)
  case Nil
  assume "set xs = {a}"
  with Nil show ?thesis by simp
next
  case (Cons x ys)
  assume d: "distinct xs" and s: "set xs = {a}"
  from s Cons have x: "x = a" and sub: "set ys \<subseteq> {a}" by auto
  from d Cons x have "a \<notin> set ys" by simp
  with sub have "ys = []" by (cases ys) auto
  with Cons x show ?thesis by simp
qed

lemma live_voices_active:
  assumes c: "consistent s" and v: "map_of (activeNotes s) n = Some v"
  shows "live_voices s n = [oscillator v]"
proof (rule distinct_set_singleton [OF distinct_live_voices])
  have "oscillator v \<in> set (live_voices s n)"
    using consistent_voice[OF c v] by (simp add: live_voices_def sounding_def)
  moreover have "i = oscillator v" if "i \<in> set (live_voices s n)" for i
    using live_voicesD[OF c that] v by auto
  ultimately show "set (live_voices s n) = {oscillator v}" by blast
qed

lemma live_voices_inactive:
  assumes c: "consistent s" and v: "map_of (activeNotes s) n = None"
  shows "live_voices s n = []"
proof (cases "live_voices s n")
  case (Cons i xs)
  then have "i \<in> set (live_voices s n)" by simp
  from live_voicesD[OF c this] v show ?thesis by simp
qed simp

lemma live_voices_le_one: "consistent s \<Longrightarrow> length (live_voices s n) \<le> 1"
  by (cases "map_of (activeNotes s) n") (simp_all add: live_voices_active live_voices_inactive)

lemma release_fields [simp]:
  "length (osc_nodes (release_if_active n s)) = length (osc_nodes s)"
  "gain_nodes (release_if_active n s) = gain_nodes s"
  "sustainActive (release_if_active n s) = sustainActive s"
  by (simp_all add: release_if_active_def split: option.splits)

lemma start_new_voice:
  "consistent s \<Longrightarrow>
   map_of (activeNotes (start n velocity s)) n =
     Some \<lparr> gain = length (gain_nodes s), oscillator = length (osc_nodes s), stop_note = n \<rparr>"
  by (simp add: start_eq add_voice_def update_conv')

lemma start_new_node:
  "osc_nodes (start n velocity s) ! length (osc_nodes s) =
     \<lparr> osc_detune = detune s, osc_frequency = noteToFrequency n,
       osc_type = waveform s, playing = True, osc_output = Some (length (gain_nodes s)),
       onended = Some (length (gain_nodes s)) \<rparr>"
  by (simp add: start_def Let_def voice_stop_def nth_append split: option.splits)

lemma start_old_voice_stopped:
  assumes v: "map_of (activeNotes s) n = Some v" and l: "oscillator v < length (osc_nodes s)"
  shows "\<not> sounding (start n velocity s) v"
  using v l by (simp add: start_def Let_def voice_stop_def sounding_def nth_append nth_node_stop)

lemma start_not_sustained:
  assumes c: "consistent s"
  shows "n \<notin> set (sustainedNotes (start n velocity s))"
proof (cases "map_of (activeNotes s) n")
  case None
  with consistent_sustained[OF c, of n] show ?thesis
    by (auto simp add: start_def Let_def)
next
  case (Some v)
  with consistent_voice[OF c Some] show ?thesis
    by (simp add: start_def Let_def)
qed

lemmas run_simps =
  run_def init_def onNoteOn_def onNoteOff_def onSustainOn_def onSustainOff_def onDetune_def
  onDetuneAmount_def onDetuneStop_def start_def stop_def voice_stop_def oscillator_onended_def
  apply_detune_def node_stop_def node_set_detune_def osc_disconnect_def gain_disconnect_def
  sounding_def live_voices_def Let_def

text \<open>
  Claim C1. After any sequence of events, a note has at most one live voice (at most one
  oscillator node sounding at the note's frequency), and no note occurs twice among the
  keys of \<open>activeNotes\<close>. A \<open>noteOn\<close> for a note that has an entry stops the oscillator
  of that entry, whether or not sustain is active; afterwards the note has exactly one
  live voice, the newly created one, and the note is not marked as sustained.
\<close>

theorem one_live_voice_per_note:
  "length (live_voices (run evs init) n) \<le> 1 \<and>
   distinct (map fst (activeNotes (run evs init))) \<and>
   (\<forall>v. map_of (activeNotes (run evs init)) n = Some v \<longrightarrow>
      \<not> sounding (run (evs @ [NoteOn n velocity]) init) v) \<and>
   live_voices (run (evs @ [NoteOn n velocity]) init) n = [length (osc_nodes (run evs init))] \<and>
   n \<notin> set (sustainedNotes (run (evs @ [NoteOn n velocity]) init))"
proof -
  let ?s = "run evs init" and ?s1 = "run evs init\<lparr>isNoteOn := True\<rparr>"
  have c: "consistent ?s" by (rule consistent_run)
  have c1: "consistent ?s1" by (rule consistent_same_sound [OF c]) simp_all
  have eq: "run (evs @ [NoteOn n velocity]) init = start n velocity ?s1"
    by (simp add: run_snoc onNoteOn_def)
  have c': "consistent (start n velocity ?s1)" by (rule consistent_start [OF c1])
  have a: "length (live_voices ?s n) \<le> 1" by (rule live_voices_le_one [OF c])
  have b: "distinct (map fst (activeNotes ?s))" using consistent_distinct [OF c] by simp
  have d: "\<not> sounding (start n velocity ?s1) v" if "map_of (activeNotes ?s) n = Some v" for v
  proof -
    from consistent_voice [OF c that] have "oscillator v < length (osc_nodes ?s1)"
      by (simp add: sounding_def)
    moreover from that have "map_of (activeNotes ?s1) n = Some v" by simp
    ultimately show ?thesis by (rule start_old_voice_stopped [rotated])
  qed
  have e: "live_voices (start n velocity ?s1) n = [length (osc_nodes ?s)]"
    using live_voices_active [OF c' start_new_voice [OF c1, of n velocity]] by simp
  have f: "n \<notin> set (sustainedNotes (start n velocity ?s1))" by (rule start_not_sustained [OF c1])
  from a b d e f show ?thesis unfolding eq by blast
qed

theorem one_live_voice_per_note_witness:
  "map_of (activeNotes (run [SustainOn, NoteOn 60 None, NoteOff 60] init)) 60 =
     Some \<lparr>gain = 0, oscillator = 0, stop_note = 60\<rparr> \<and>
   sustainActive (run [SustainOn, NoteOn 60 None, NoteOff 60] init) \<and>
   60 \<in> set (sustainedNotes (run [SustainOn, NoteOn 60 None, NoteOff 60] init)) \<and>
   live_voices (run [SustainOn, NoteOn 60 None, NoteOff 60] init) 60 = [0] \<and>
   \<not> sounding (run ([SustainOn, NoteOn 60 None, NoteOff 60] @ [NoteOn 60 (Some 1)]) init)
       \<lparr>gain = 0, oscillator = 0, stop_note = 60\<rparr> \<and>
   live_voices (run ([SustainOn, NoteOn 60 None, NoteOff 60] @ [NoteOn 60 (Some 1)]) init) 60 = [1] \<and>
   60 \<notin> set (sustainedNotes
     (run ([SustainOn, NoteOn 60 None, NoteOff 60] @ [NoteOn 60 (Some 1)]) init))"
proof -
  have h: "map_of (activeNotes (run [SustainOn, NoteOn 60 None, NoteOff 60] init)) 60 =
     Some \<lparr>gain = 0, oscillator = 0, stop_note = 60\<rparr>"
    by (simp add: run_simps)
  have l: "length (osc_nodes (run [SustainOn, NoteOn 60 None, NoteOff 60] init)) = 1"
    by (simp add: run_simps)
  have e: "sustainActive (run [SustainOn, NoteOn 60 None, NoteOff 60] init) \<and>
    60 \<in> set (sustainedNotes (run [SustainOn, NoteOn 60 None, NoteOff 60] init)) \<and>
    live_voices (run [SustainOn, NoteOn 60 None, NoteOff 60] init) 60 = [0]"
    by (simp add: run_simps)
  from one_live_voice_per_note [of "[SustainOn, NoteOn 60 None, NoteOff 60]" 60 "Some 1"] h l e
  show ?thesis
    by simp
qed

subsection \<open>Sustain\<close>

lemma stop_fields [simp]:
  "sustainActive (stop n s) = sustainActive s"
  "length (osc_nodes (stop n s)) = length (osc_nodes s)"
  by (simp_all add: stop_def split: option.splits)

lemma stop_sustained:
  "sustainActive s \<Longrightarrow> map_of (activeNotes s) n = Some v \<Longrightarrow>
   activeNotes (stop n s) = activeNotes s \<and> osc_nodes (stop n s) = osc_nodes s \<and>
   gain_nodes (stop n s) = gain_nodes s \<and> n \<in> set (sustainedNotes (stop n s))"
  by (simp add: stop_def)

lemma stop_flush_step:
  assumes c: "consistent s" and off: "\<not> sustainActive s"
  shows "sustainedNotes (if n \<in> set (sustainedNotes s) then stop n s else s) =
           removeAll n (sustainedNotes s)"
    and "map_of (activeNotes (if n \<in> set (sustainedNotes s) then stop n s else s)) =
           (\<lambda>k. if k = n \<and> n \<in> set (sustainedNotes s) then None else map_of (activeNotes s) k)"
proof -
  show "sustainedNotes (if n \<in> set (sustainedNotes s) then stop n s else s) =
           removeAll n (sustainedNotes s)"
  proof (cases "n \<in> set (sustainedNotes s)")
    case True
    from consistent_sustained [OF c True] obtain v where v: "map_of (activeNotes s) n = Some v"
      by blast
    from consistent_voice [OF c v] True v off show ?thesis
      by (simp add: stop_def)
  next
    case False
    then show ?thesis by simp
  qed
  show "map_of (activeNotes (if n \<in> set (sustainedNotes s) then stop n s else s)) =
           (\<lambda>k. if k = n \<and> n \<in> set (sustainedNotes s) then None else map_of (activeNotes s) k)"
  proof (cases "n \<in> set (sustainedNotes s)")
    case True
    from consistent_sustained [OF c True] obtain v where v: "map_of (activeNotes s) n = Some v"
      by blast
    from consistent_voice [OF c v] True v off show ?thesis
      by (auto simp add: stop_def delete_conv')
  next
    case False
    then show ?thesis by simp
  qed
qed

lemma stop_each_flush:
  assumes "consistent s" and "\<not> sustainActive s"
  shows "sustainedNotes (stop_each ns s) = filter (\<lambda>k. k \<notin> set ns) (sustainedNotes s) \<and>
         map_of (activeNotes (stop_each ns s)) =
           (\<lambda>k. if k \<in> set ns \<and> k \<in> set (sustainedNotes s) then None
                else map_of (activeNotes s) k) \<and>
         length (osc_nodes (stop_each ns s)) = length (osc_nodes s) \<and>
         \<not> sustainActive (stop_each ns s)"
  using assms
proof (induction ns arbitrary: s)
  case Nil
  then show ?case by simp
next
  case (Cons n ns)
  let ?s1 = "if n \<in> set (sustainedNotes s) then stop n s else s"
  have c1: "consistent ?s1" using Cons.prems by (simp add: consistent_stop)
  have off1: "\<not> sustainActive ?s1" using Cons.prems by simp
  have len1: "length (osc_nodes ?s1) = length (osc_nodes s)" by simp
  note st = stop_flush_step [OF Cons.prems, of n]
  from Cons.IH [OF c1 off1] show ?case
    unfolding stop_each.simps st len1
    by (auto simp add: removeAll_filter_not_eq fun_eq_iff intro: filter_cong)
qed

lemma onSustainOff_flush:
  assumes c: "consistent s"
  shows "\<not> sustainActive (onSustainOff s)"
    and "sustainedNotes (onSustainOff s) = []"
    and "map_of (activeNotes (onSustainOff s)) =
           (\<lambda>k. if k \<in> set (sustainedNotes s) then None else map_of (activeNotes s) k)"
    and "length (osc_nodes (onSustainOff s)) = length (osc_nodes s)"
proof -
  have c0: "consistent (s\<lparr>sustainActive := False\<rparr>)"
    by (rule consistent_same_sound [OF c]) simp_all
  have off: "\<not> sustainActive (s\<lparr>sustainActive := False\<rparr>)" by simp
  from stop_each_flush [OF c0 off, of "sustainedNotes s"]
  show "\<not> sustainActive (onSustainOff s)"
    and "sustainedNotes (onSustainOff s) = []"
    and "map_of (activeNotes (onSustainOff s)) =
           (\<lambda>k. if k \<in> set (sustainedNotes s) then None else map_of (activeNotes s) k)"
    and "length (osc_nodes (onSustainOff s)) = length (osc_nodes s)"
    by (simp_all add: onSustainOff_def cong: if_cong)
qed

lemma onSustainOff_stops:
  assumes c: "consistent s" and n: "n \<in> set (sustainedNotes s)"
    and v: "map_of (activeNotes s) n = Some v"
  shows "\<not> sounding (onSustainOff s) v"
proof
  assume "sounding (onSustainOff s) v"
  then have i: "oscillator v < length (osc_nodes (onSustainOff s))"
    and p: "playing (osc_nodes (onSustainOff s) ! oscillator v)"
    by (simp_all add: sounding_def)
  from consistent_playing [OF consistent_onSustainOff [OF c] i p] obtain k w
    where kw: "map_of (activeNotes (onSustainOff s)) k = Some w" "oscillator w = oscillator v"
    by blast
  from kw(1) have k: "k \<notin> set (sustainedNotes s)" and w: "map_of (activeNotes s) k = Some w"
    unfolding onSustainOff_flush(3) [OF c] by (auto split: if_splits)
  from same_oscillator_same_note [OF c w v kw(2)] k n show False by simp
qed

text \<open>
  Claim C2. While sustain is active, a \<open>noteOff\<close> for a note that has an entry leaves
  \<open>activeNotes\<close> and the oscillator nodes as they are (the voice keeps sounding) and the
  note is in \<open>sustainedNotes\<close> afterwards. A \<open>sustainOff\<close> sets \<open>sustainActive\<close> to
  false, leaves \<open>sustainedNotes\<close> empty, and for every note that was sustained stops the
  oscillator of its entry and deletes the entry. The scenario: after \<open>sustainOn\<close>,
  \<open>noteOn(60)\<close>, \<open>noteOff(60)\<close> the voice of note 60 is sounding and
  \<open>sustainedNotes\<close> holds exactly 60; after \<open>sustainOff\<close> that voice is stopped and
  \<open>sustainedNotes\<close> and \<open>activeNotes\<close> are empty.
\<close>

theorem sustain_defers_release:
  "(sustainActive (run evs init) \<and> map_of (activeNotes (run evs init)) n = Some v \<longrightarrow>
      activeNotes (run (evs @ [NoteOff n]) init) = activeNotes (run evs init) \<and>
      osc_nodes (run (evs @ [NoteOff n]) init) = osc_nodes (run evs init) \<and>
      sounding (run (evs @ [NoteOff n]) init) v \<and>
      n \<in> set (sustainedNotes (run (evs @ [NoteOff n]) init)))
   \<and> \<not> sustainActive (run (evs @ [SustainOff]) init)
   \<and> sustainedNotes (run (evs @ [SustainOff]) init) = []
   \<and> (n \<in> set (sustainedNotes (run evs init)) \<and> map_of (activeNotes (run evs init)) n = Some v \<longrightarrow>
        \<not> sounding (run (evs @ [SustainOff]) init) v \<and>
        map_of (activeNotes (run (evs @ [SustainOff]) init)) n = None)
   \<and> map_of (activeNotes (run [SustainOn, NoteOn 60 velocity, NoteOff 60] init)) 60 =
        Some \<lparr>gain = 0, oscillator = 0, stop_note = 60\<rparr>
   \<and> sounding (run [SustainOn, NoteOn 60 velocity, NoteOff 60] init)
        \<lparr>gain = 0, oscillator = 0, stop_note = 60\<rparr>
   \<and> sustainedNotes (run [SustainOn, NoteOn 60 velocity, NoteOff 60] init) = [60]
   \<and> \<not> sounding (run [SustainOn, NoteOn 60 velocity, NoteOff 60, SustainOff] init)
        \<lparr>gain = 0, oscillator = 0, stop_note = 60\<rparr>
   \<and> sustainedNotes (run [SustainOn, NoteOn 60 velocity, NoteOff 60, SustainOff] init) = []
   \<and> activeNotes (run [SustainOn, NoteOn 60 velocity, NoteOff 60, SustainOff] init) = []
   \<and> \<not> sustainActive (run [SustainOn, NoteOn 60 velocity, NoteOff 60, SustainOff] init)"
proof (intro conjI impI)
  let ?s = "run evs init"
  have c: "consistent ?s" by (rule consistent_run)
  {
    assume h: "sustainActive ?s \<and> map_of (activeNotes ?s) n = Some v"
    have eq: "run (evs @ [NoteOff n]) init = stop n (?s\<lparr>isNoteOn := False\<rparr>)"
      by (simp add: run_snoc onNoteOff_def)
    from h have st: "sustainActive (?s\<lparr>isNoteOn := False\<rparr>)"
      "map_of (activeNotes (?s\<lparr>isNoteOn := False\<rparr>)) n = Some v" by simp_all
    note r = stop_sustained [OF st]
    from r show "activeNotes (run (evs @ [NoteOff n]) init) = activeNotes ?s"
      unfolding eq by simp
    from r show on: "osc_nodes (run (evs @ [NoteOff n]) init) = osc_nodes ?s"
      unfolding eq by simp
    from h have hv: "map_of (activeNotes ?s) n = Some v" by simp
    from consistent_voice [OF c hv] show "sounding (run (evs @ [NoteOff n]) init) v"
      by (simp add: sounding_def on)
    from r show "n \<in> set (sustainedNotes (run (evs @ [NoteOff n]) init))"
      unfolding eq by simp
  }
  have eq: "run (evs @ [SustainOff]) init = onSustainOff ?s"
    by (simp add: run_snoc)
  show "\<not> sustainActive (run (evs @ [SustainOff]) init)"
    unfolding eq by (rule onSustainOff_flush(1) [OF c])
  show "sustainedNotes (run (evs @ [SustainOff]) init) = []"
    unfolding eq by (rule onSustainOff_flush(2) [OF c])
  {
    assume h: "n \<in> set (sustainedNotes ?s) \<and> map_of (activeNotes ?s) n = Some v"
    then show "\<not> sounding (run (evs @ [SustainOff]) init) v"
      unfolding eq using onSustainOff_stops [OF c] by blast
    from h show "map_of (activeNotes (run (evs @ [SustainOff]) init)) n = None"
      unfolding eq onSustainOff_flush(3) [OF c] by simp
  }
qed (simp_all add: run_simps)

theorem sustain_defers_release_witness:
  "sustainActive (run [SustainOn, NoteOn 64 None] init) \<and>
   map_of (activeNotes (run [SustainOn, NoteOn 64 None] init)) 64 =
     Some \<lparr>gain = 0, oscillator = 0, stop_note = 64\<rparr> \<and>
   sounding (run ([SustainOn, NoteOn 64 None] @ [NoteOff 64]) init)
     \<lparr>gain = 0, oscillator = 0, stop_note = 64\<rparr> \<and>
   64 \<in> set (sustainedNotes (run ([SustainOn, NoteOn 64 None] @ [NoteOff 64]) init)) \<and>
   64 \<in> set (sustainedNotes (run [SustainOn, NoteOn 64 None, NoteOff 64] init)) \<and>
   map_of (activeNotes (run [SustainOn, NoteOn 64 None, NoteOff 64] init)) 64 =
     Some \<lparr>gain = 0, oscillator = 0, stop_note = 64\<rparr> \<and>
   \<not> sounding (run ([SustainOn, NoteOn 64 None, NoteOff 64] @ [SustainOff]) init)
     \<lparr>gain = 0, oscillator = 0, stop_note = 64\<rparr> \<and>
   map_of (activeNotes (run ([SustainOn, NoteOn 64 None, NoteOff 64] @ [SustainOff]) init)) 64 = None \<and>
   sustainedNotes (run ([SustainOn, NoteOn 64 None, NoteOff 64] @ [SustainOff]) init) = []"
proof -
  have h: "sustainActive (run [SustainOn, NoteOn 64 None] init) \<and>
   map_of (activeNotes (run [SustainOn, NoteOn 64 None] init)) 64 =
     Some \<lparr>gain = 0, oscillator = 0, stop_note = 64\<rparr> \<and>
   64 \<in> set (sustainedNotes (run [SustainOn, NoteOn 64 None, NoteOff 64] init)) \<and>
   map_of (activeNotes (run [SustainOn, NoteOn 64 None, NoteOff 64] init)) 64 =
     Some \<lparr>gain = 0, oscillator = 0, stop_note = 64\<rparr>"
    by (simp add: run_simps)
  from h
    sustain_defers_release [of "[SustainOn, NoteOn 64 None]" 64
      "\<lparr>gain = 0, oscillator = 0, stop_note = 64\<rparr>"]
    sustain_defers_release [of "[SustainOn, NoteOn 64 None, NoteOff 64]" 64
      "\<lparr>gain = 0, oscillator = 0, stop_note = 64\<rparr>"]
  show ?thesis by blast
qed

subsection \<open>The completion callback\<close>

lemma length_gain_disconnect [simp]: "length (gain_disconnect i nodes) = length nodes"
  by (simp add: gain_disconnect_def)












lemma apply_detune_gain_nodes [simp]: "gain_nodes (apply_detune s) = gain_nodes s"
  by (simp add: apply_detune_def)















subsection \<open>Frequency of a voice\<close>

lemma start_new_voice_any:
  "map_of (activeNotes (start n velocity s)) n =
     Some \<lparr> gain = length (gain_nodes s), oscillator = length (osc_nodes s), stop_note = n \<rparr>"
  by (simp add: start_eq add_voice_def update_conv')

text \<open>
  Claim C4. \<open>noteToFrequency n\<close> is \<open>2^((n - 69) / 12) * 440\<close>, and exactly 440 for
  note 69. The oscillator node that \<open>start\<close> creates for a note, the one its new entry
  in \<open>activeNotes\<close> refers to, has that frequency. Numbers are taken as reals.
\<close>

theorem voice_frequency:
  "noteToFrequency n = 2 powr ((real_of_int n - 69) / 12) * 440 \<and>
   noteToFrequency 69 = 440 \<and>
   map_of (activeNotes (start n velocity s)) n =
     Some \<lparr> gain = length (gain_nodes s), oscillator = length (osc_nodes s), stop_note = n \<rparr> \<and>
   osc_frequency (osc_nodes (start n velocity s) ! length (osc_nodes s)) =
     2 powr ((real_of_int n - 69) / 12) * 440"
  by (simp add: start_new_voice_any start_new_node) (simp add: noteToFrequency_def)

theorem voice_frequency_witness:
  "noteToFrequency 81 = 880 \<and>
   osc_frequency (osc_nodes (start 81 None init) ! length (osc_nodes init)) = 880"
  using voice_frequency [of 81 None init] by simp

subsection \<open>Detune\<close>

text \<open>
  Claim C8. After any sequence of events, a \<open>__onDetune\<close> from a fader with value \<open>x\<close>
  sets \<open>detune\<close> to \<open>x * detuneAmount * 100\<close> and sets the detune of the oscillator node
  of every entry of \<open>activeNotes\<close> to that value; it creates no node and leaves
  \<open>activeNotes\<close> as it is.
\<close>

theorem detune_applies_to_active_voices:
  "detune (run (evs @ [Detune (Some x)]) init) = x * detuneAmount (run evs init) * 100 \<and>
   activeNotes (run (evs @ [Detune (Some x)]) init) = activeNotes (run evs init) \<and>
   length (osc_nodes (run (evs @ [Detune (Some x)]) init)) = length (osc_nodes (run evs init)) \<and>
   (map_of (activeNotes (run evs init)) n = Some v \<longrightarrow>
      osc_detune (osc_nodes (run (evs @ [Detune (Some x)]) init) ! oscillator v) =
        x * detuneAmount (run evs init) * 100)"
proof (intro conjI impI)
  let ?s = "run evs init"
  have eq: "run (evs @ [Detune (Some x)]) init =
      apply_detune (?s\<lparr>detune := x * detuneAmount ?s * 100\<rparr>)"
    by (simp add: run_snoc onDetune_def)
  show "detune (run (evs @ [Detune (Some x)]) init) = x * detuneAmount ?s * 100"
    and "activeNotes (run (evs @ [Detune (Some x)]) init) = activeNotes ?s"
    and "length (osc_nodes (run (evs @ [Detune (Some x)]) init)) = length (osc_nodes ?s)"
    unfolding eq by simp_all
  assume v: "map_of (activeNotes ?s) n = Some v"
  from consistent_voice [OF consistent_run v] have l: "oscillator v < length (osc_nodes ?s)"
    by (simp add: sounding_def)
  from v have "(n, v) \<in> set (activeNotes ?s)" by (rule map_of_SomeD)
  then have "oscillator v \<in> oscillator ` snd ` set (activeNotes ?s)" by force
  with l show "osc_detune (osc_nodes (run (evs @ [Detune (Some x)]) init) ! oscillator v) =
        x * detuneAmount ?s * 100"
    unfolding eq by (simp add: apply_detune_nth)
qed

theorem detune_applies_to_active_voices_witness:
  "map_of (activeNotes (run [NoteOn 60 None, NoteOn 64 None] init)) 60 =
     Some \<lparr>gain = 0, oscillator = 0, stop_note = 60\<rparr> \<and>
   map_of (activeNotes (run [NoteOn 60 None, NoteOn 64 None] init)) 64 =
     Some \<lparr>gain = 1, oscillator = 1, stop_note = 64\<rparr> \<and>
   osc_detune (osc_nodes (run [NoteOn 60 None, NoteOn 64 None] init) ! 0) = 0 \<and>
   osc_detune (osc_nodes (run [NoteOn 60 None, NoteOn 64 None] init) ! 1) = 0 \<and>
   osc_detune (osc_nodes (run ([NoteOn 60 None, NoteOn 64 None] @ [Detune (Some (1 / 2))]) init) ! 0) = 100 \<and>
   osc_detune (osc_nodes (run ([NoteOn 60 None, NoteOn 64 None] @ [Detune (Some (1 / 2))]) init) ! 1) = 100 \<and>
   length (osc_nodes (run ([NoteOn 60 None, NoteOn 64 None] @ [Detune (Some (1 / 2))]) init)) = 2"
proof -
  have h: "map_of (activeNotes (run [NoteOn 60 None, NoteOn 64 None] init)) 60 =
     Some \<lparr>gain = 0, oscillator = 0, stop_note = 60\<rparr> \<and>
   map_of (activeNotes (run [NoteOn 60 None, NoteOn 64 None] init)) 64 =
     Some \<lparr>gain = 1, oscillator = 1, stop_note = 64\<rparr> \<and>
   osc_detune (osc_nodes (run [NoteOn 60 None, NoteOn 64 None] init) ! 0) = 0 \<and>
   osc_detune (osc_nodes (run [NoteOn 60 None, NoteOn 64 None] init) ! 1) = 0 \<and>
   detuneAmount (run [NoteOn 60 None, NoteOn 64 None] init) = 2 \<and>
   length (osc_nodes (run [NoteOn 60 None, NoteOn 64 None] init)) = 2"
    by (simp add: run_simps)
  from h
    detune_applies_to_active_voices [of "[NoteOn 60 None, NoteOn 64 None]" "1 / 2" 60 "\<lparr>gain = 0, oscillator = 0, stop_note = 60\<rparr>"]
    detune_applies_to_active_voices [of "[NoteOn 60 None, NoteOn 64 None]" "1 / 2" 64 "\<lparr>gain = 1, oscillator = 1, stop_note = 64\<rparr>"]
  show ?thesis by simp
qed

subsection \<open>Releasing a note that is not active\<close>

text \<open>
  Claim C9. For a note without an entry in \<open>activeNotes\<close>, \<open>stop\<close> returns the state it
  was given, whether or not sustain is active: nothing fails and nothing changes. The
  handler \<open>__onNoteOff\<close>, which calls it, changes nothing either, apart from clearing
  the flag \<open>isNoteOn\<close> that it clears on every call.
\<close>

theorem note_off_inactive_is_noop:
  "map_of (activeNotes s) n = None \<Longrightarrow> stop n s = s \<and> onNoteOff n s = s\<lparr>isNoteOn := False\<rparr>"
  by (simp add: stop_def onNoteOff_def)

theorem note_off_inactive_is_noop_witness:
  "map_of (activeNotes (run [SustainOn, NoteOn 60 None] init)) 61 = None \<and>
   sustainActive (run [SustainOn, NoteOn 60 None] init) \<and>
   stop 61 (run [SustainOn, NoteOn 60 None] init) = run [SustainOn, NoteOn 60 None] init \<and>
   map_of (activeNotes init) 60 = None \<and> \<not> sustainActive init \<and> stop 60 init = init \<and>
   onNoteOff 60 init = init"
proof -
  have h: "map_of (activeNotes (run [SustainOn, NoteOn 60 None] init)) 61 = None \<and>
   sustainActive (run [SustainOn, NoteOn 60 None] init) \<and>
   map_of (activeNotes init) 60 = None \<and> \<not> sustainActive init \<and> init\<lparr>isNoteOn := False\<rparr> = init"
    by (simp add: run_simps)
  from h note_off_inactive_is_noop [of "run [SustainOn, NoteOn 60 None] init" 61] note_off_inactive_is_noop [of init 60] show ?thesis
    by simp
qed

subsection \<open>Sustained notes are active\<close>

lemma consistent_subset: "consistent s \<Longrightarrow> set (sustainedNotes s) \<subseteq> fst ` set (activeNotes s)"
  using consistent_sustained [of s] by (auto simp add: active_key)

text \<open>
  Claim C10. After any sequence of events every note of \<open>sustainedNotes\<close> is a key of
  \<open>activeNotes\<close>, also right after a \<open>sustainOff\<close>. \<open>stop\<close> adds a note to
  \<open>sustainedNotes\<close> only when the note has an entry, which it keeps; and the \<open>stop\<close>
  closure of a voice, the only code that deletes an entry, deletes the note from
  \<open>sustainedNotes\<close> as well.
\<close>

theorem sustained_subset_active:
  "set (sustainedNotes (run evs init)) \<subseteq> fst ` set (activeNotes (run evs init)) \<and>
   set (sustainedNotes (run (evs @ [SustainOff]) init)) \<subseteq>
     fst ` set (activeNotes (run (evs @ [SustainOff]) init)) \<and>
   (n \<in> set (sustainedNotes (stop n s)) \<and> n \<notin> set (sustainedNotes s) \<longrightarrow>
      map_of (activeNotes s) n \<noteq> None \<and> activeNotes (stop n s) = activeNotes s) \<and>
   map_of (activeNotes (voice_stop v s)) (stop_note v) = None \<and>
   stop_note v \<notin> set (sustainedNotes (voice_stop v s))"
proof (intro conjI impI)
  show "set (sustainedNotes (run evs init)) \<subseteq> fst ` set (activeNotes (run evs init))"
    by (rule consistent_subset [OF consistent_run])
  show "set (sustainedNotes (run (evs @ [SustainOff]) init)) \<subseteq>
     fst ` set (activeNotes (run (evs @ [SustainOff]) init))"
    by (rule consistent_subset [OF consistent_run])
  show "map_of (activeNotes (voice_stop v s)) (stop_note v) = None"
    by (simp add: delete_conv')
  show "stop_note v \<notin> set (sustainedNotes (voice_stop v s))"
    by simp
next
  assume h: "n \<in> set (sustainedNotes (stop n s)) \<and> n \<notin> set (sustainedNotes s)"
  then show "map_of (activeNotes s) n \<noteq> None"
    by (auto simp add: stop_def split: if_splits option.splits)
  from h show "activeNotes (stop n s) = activeNotes s"
    by (auto simp add: stop_def split: if_splits option.splits)
qed

theorem sustained_subset_active_witness:
  "60 \<in> set (sustainedNotes (stop 60 (run [SustainOn, NoteOn 60 None] init))) \<and>
   60 \<notin> set (sustainedNotes (run [SustainOn, NoteOn 60 None] init)) \<and>
   map_of (activeNotes (run [SustainOn, NoteOn 60 None] init)) 60 \<noteq> None \<and>
   set (sustainedNotes (run [SustainOn, NoteOn 60 None, NoteOff 60] init)) \<subseteq>
     fst ` set (activeNotes (run [SustainOn, NoteOn 60 None, NoteOff 60] init)) \<and>
   sustainedNotes (run [SustainOn, NoteOn 60 None, NoteOff 60] init) = [60]"
proof -
  have h: "60 \<in> set (sustainedNotes (stop 60 (run [SustainOn, NoteOn 60 None] init))) \<and>
   60 \<notin> set (sustainedNotes (run [SustainOn, NoteOn 60 None] init)) \<and>
   sustainedNotes (run [SustainOn, NoteOn 60 None, NoteOff 60] init) = [60]"
    by (simp add: run_simps)
  from h sustained_subset_active [of "[SustainOn, NoteOn 60 None, NoteOff 60]" 60 "run [SustainOn, NoteOn 60 None] init"]
  show ?thesis by blast
qed

end
